theory Spec2Isabelle
  imports Main "HOL-Library.Word"
begin

section \<open>The Runner object (class \<open>not_a_timer\<close>)\<close>

text \<open>
  The class has five data members (lines 77-81 of \<^verbatim>\<open>not_a_timer.cpp\<close>):
  \<^verbatim>\<open>
    std::optional<std::future<void>> _running_fn;
    std::condition_variable _async_run_started;
    std::mutex _mutex;
    std::atomic<bool> _keep_running{ true };
    std::atomic<bool> _is_running{ false };
  \<close>
  An identifier cannot start with an underscore here, so the members carry the prefix
  \<open>t_\<close>. The future is the handle of the one task started by \<open>std::async\<close>; the
  condition variable is the set of threads blocked in \<open>wait\<close>; the mutex is its owner,
  if any. Both atomics are accessed with the default sequentially consistent ordering,
  so every load and store is one indivisible step of an interleaving.
\<close>

datatype thread = Caller | Worker

datatype future = Async_task

record not_a_timer =
  t_running_fn :: "future option"
  t_async_run_started :: "thread set"
  t_mutex :: "thread option"
  t_keep_running :: bool
  t_is_running :: bool

text \<open>\<^verbatim>\<open>not_a_timer() = default;\<close> with the default member initialisers.\<close>

definition not_a_timer_init :: not_a_timer where
  "not_a_timer_init =
     \<lparr>t_running_fn = None, t_async_run_started = {}, t_mutex = None,
      t_keep_running = True, t_is_running = False\<rparr>"

text \<open>\<^verbatim>\<open>void stop() { _keep_running = false; }\<close>\<close>

definition stop :: "not_a_timer \<Rightarrow> not_a_timer" where
  "stop t = t\<lparr>t_keep_running := False\<rparr>"

text \<open>\<^verbatim>\<open>bool is_running() const { return _is_running; }\<close>\<close>

definition is_running :: "not_a_timer \<Rightarrow> bool" where
  "is_running t = t_is_running t"

section \<open>The step function\<close>

text \<open>
  \<^verbatim>\<open>using Fn_t = std::function<bool()>;\<close> The callable closes over state of its
  caller (the tests capture a counter by reference), here the environment \<open>'e\<close>. One
  invocation either returns a boolean or throws; in both cases the environment keeps
  what the invocation did to it. An invocation that never comes back is not considered.
\<close>

datatype 'x outcome = Returned bool | Threw 'x

type_synonym ('e, 'x) Fn_t = "'e \<Rightarrow> 'x outcome \<times> 'e"

text \<open>How a call of \<open>run\<close> ends: by returning, or by propagating the exception.\<close>

datatype 'x completion = Normal | Exceptional 'x

section \<open>\<open>run\<close> on one thread, without interference\<close>

text \<open>
  \<^verbatim>\<open>
  void run(Fn_t&& fn) {
      _keep_running = true;
      _is_running = true;
      janitor _{[this]() { _is_running = false; }};
      while (_keep_running && fn());
  }
  \<close>
  The loop may run forever, so it is a partial function: \<open>None\<close> is "does not return".
  The last component of the result counts the invocations of the step function.
\<close>

partial_function (option) run_loop ::
  "('e, 'x) Fn_t \<Rightarrow> not_a_timer \<Rightarrow> 'e \<Rightarrow> nat \<Rightarrow> ('x completion \<times> not_a_timer \<times> 'e \<times> nat) option"
where
  "run_loop fn t e n =
     (if \<not> t_keep_running t then Some (Normal, t, e, n)
      else case fn e of
        (Returned b, e') \<Rightarrow>
          if b then run_loop fn t e' (Suc n) else Some (Normal, t, e', Suc n)
      | (Threw x, e') \<Rightarrow> Some (Exceptional x, t, e', Suc n))"

text \<open>
  \<^verbatim>\<open>struct janitor { Fn_T _fn; ... ~janitor() { _fn(); } };\<close> The destructor runs when
  the enclosing scope is left, by a return or by an exception alike.
\<close>

definition janitor ::
  "(not_a_timer \<Rightarrow> not_a_timer) \<Rightarrow> ('c \<times> not_a_timer \<times> 'e \<times> nat) option
     \<Rightarrow> ('c \<times> not_a_timer \<times> 'e \<times> nat) option"
where
  "janitor cleanup body =
     (case body of None \<Rightarrow> None | Some (c, t, e, n) \<Rightarrow> Some (c, cleanup t, e, n))"

definition run ::
  "('e, 'x) Fn_t \<Rightarrow> not_a_timer \<Rightarrow> 'e \<Rightarrow> ('x completion \<times> not_a_timer \<times> 'e \<times> nat) option"
where
  "run fn t e =
     (let t1 = t\<lparr>t_keep_running := True\<rparr>;
          t2 = t1\<lparr>t_is_running := True\<rparr>
      in janitor (\<lambda>t. t\<lparr>t_is_running := False\<rparr>) (run_loop fn t2 e 0))"

text \<open>The environment after \<open>k\<close> invocations that all returned.\<close>

primrec env_after :: "('e, 'x) Fn_t \<Rightarrow> nat \<Rightarrow> 'e \<Rightarrow> 'e" where
  "env_after fn 0 e = e"
| "env_after fn (Suc k) e = env_after fn k (snd (fn e))"

text \<open>
  The step function of the tests: \<^verbatim>\<open>[&count]() { return --count > 0; }\<close> with
  \<^verbatim>\<open>size_t count\<close>, an unsigned 64-bit integer on the x64 target.
\<close>

definition countdown :: "(64 word, 'x) Fn_t" where
  "countdown count = (Returned (0 < count - 1), count - 1)"

section \<open>\<open>run\<close> as a thread: one step per load, store or invocation\<close>

text \<open>
  The program points of \<open>run\<close>: before the store of line 49, before the store of
  line 50, before the load of \<open>_keep_running\<close> in the loop condition of line 52,
  before the invocation \<open>fn()\<close> in the same condition (the load gave true), after the
  loop with the janitor still to run, and after \<open>run\<close> has returned or propagated.
  The state of the thread is the Runner, the environment of the step function and the
  program point; \<open>calls\<close> is bookkeeping, the number of invocations made so far,
  and no step reads it. An invocation is one step: no other thread of the model touches
  the environment, so whatever happens during \<open>fn()\<close> happens, for the Runner, either
  before or after it.
\<close>

datatype 'x run_pc =
  R_keep | R_is | R_test | R_call | R_exit "'x completion" | R_done "'x completion"

record ('e, 'x) run_state =
  timer :: not_a_timer
  env :: 'e
  rpc :: "'x run_pc"
  calls :: nat

definition run_step ::
  "('e, 'x) Fn_t \<Rightarrow> ('e, 'x, 'z) run_state_scheme \<Rightarrow> ('e, 'x, 'z) run_state_scheme"
where
  "run_step fn s =
     (case rpc s of
        R_keep \<Rightarrow> s\<lparr>timer := (timer s)\<lparr>t_keep_running := True\<rparr>, rpc := R_is\<rparr>
      | R_is \<Rightarrow> s\<lparr>timer := (timer s)\<lparr>t_is_running := True\<rparr>, rpc := R_test\<rparr>
      | R_test \<Rightarrow>
          if t_keep_running (timer s) then s\<lparr>rpc := R_call\<rparr> else s\<lparr>rpc := R_exit Normal\<rparr>
      | R_call \<Rightarrow>
          (case fn (env s) of
             (Returned b, e') \<Rightarrow>
               s\<lparr>env := e', calls := Suc (calls s),
                 rpc := (if b then R_test else R_exit Normal)\<rparr>
           | (Threw x, e') \<Rightarrow>
               s\<lparr>env := e', calls := Suc (calls s), rpc := R_exit (Exceptional x)\<rparr>)
      | R_exit c \<Rightarrow> s\<lparr>timer := (timer s)\<lparr>t_is_running := False\<rparr>, rpc := R_done c\<rparr>
      | R_done c \<Rightarrow> s)"

text \<open>
  While one thread executes \<open>run\<close>, any other thread may call \<open>stop\<close>. A schedule is
  the list of who moves next.
\<close>

datatype event = Step | Stop

definition run_event ::
  "('e, 'x) Fn_t \<Rightarrow> event \<Rightarrow> ('e, 'x, 'z) run_state_scheme \<Rightarrow> ('e, 'x, 'z) run_state_scheme"
where
  "run_event fn ev s = (case ev of Step \<Rightarrow> run_step fn s | Stop \<Rightarrow> s\<lparr>timer := stop (timer s)\<rparr>)"

primrec run_exec ::
  "('e, 'x) Fn_t \<Rightarrow> event list \<Rightarrow> ('e, 'x, 'z) run_state_scheme \<Rightarrow> ('e, 'x, 'z) run_state_scheme"
where
  "run_exec fn [] s = s"
| "run_exec fn (ev # evs) s = run_exec fn evs (run_event fn ev s)"

definition run_init :: "not_a_timer \<Rightarrow> 'e \<Rightarrow> ('e, 'x) run_state" where
  "run_init t e = \<lparr>timer = t, env = e, rpc = R_keep, calls = 0\<rparr>"

text \<open>Inside the interval from the store of line 50 to the janitor's store.\<close>

fun in_loop :: "'x run_pc \<Rightarrow> bool" where
  "in_loop R_test = True"
| "in_loop R_call = True"
| "in_loop (R_exit c) = True"
| "in_loop _ = False"

fun finished :: "'x run_pc \<Rightarrow> bool" where
  "finished (R_done c) = True"
| "finished _ = False"

text \<open>The number of times a schedule takes the thread out of the loop.\<close>

fun iterating :: "'x run_pc \<Rightarrow> bool" where
  "iterating R_test = True"
| "iterating R_call = True"
| "iterating _ = False"

primrec loop_exits ::
  "('e, 'x) Fn_t \<Rightarrow> event list \<Rightarrow> ('e, 'x, 'z) run_state_scheme \<Rightarrow> nat"
where
  "loop_exits fn [] s = 0"
| "loop_exits fn (ev # evs) s =
     (if iterating (rpc s) \<and> \<not> iterating (rpc (run_event fn ev s)) then 1 else 0)
       + loop_exits fn evs (run_event fn ev s)"

section \<open>\<open>run_async\<close>, the worker and the destructor\<close>

text \<open>
  \<^verbatim>\<open>
  void run_async(Fn_t&& fn) {
      std::unique_lock<std::mutex> lock(_mutex);
      _running_fn = std::async(std::launch::async, [this, &fn](){
          _notify_async_run_started();
          run(std::move(fn));
          });
      _async_run_started.wait(lock);
  }
  void _notify_async_run_started() {
      std::unique_lock<std::mutex> lock{ _mutex };
      _async_run_started.notify_all();
  }
  ~not_a_timer(){ if (_running_fn) { _running_fn->wait(); } }
  \<close>
  The calling thread constructs the object, calls \<open>run_async\<close> and later lets the
  object go out of scope. Its program points: before line 56 (taking the mutex),
  before line 57 (starting the task and storing its future), before line 62 (\<open>wait\<close>
  releases the mutex and blocks), blocked in \<open>wait\<close> (which returns once the thread
  has been woken and has the mutex again), before the end of \<open>run_async\<close> (the lock
  is released), after \<open>run_async\<close> has returned, and after the destructor.
  The lambda captures \<open>fn\<close> by reference; the callable is taken to stay valid for as
  long as the loop runs, which the class leaves to its caller. Failures of the platform
  (no thread can be started, the mutex cannot be locked) are not part of the model. An
  exception of the step function ends the task and is kept in the future;
  \<open>std::future::wait\<close> does not rethrow it.
\<close>

datatype caller_pc = C_idle | C_launch | C_wait | C_blocked | C_unlock | C_returned | C_destroyed

text \<open>
  The worker: not yet started, before line 73, before line 74, before line 75 (end of
  \<open>_notify_async_run_started\<close>), and inside \<open>run\<close>, whose own program point is
  \<open>rpc\<close>.
\<close>

datatype worker_pc = W_unborn | W_lock | W_notify | W_unlock | W_run

record ('e, 'x) system = "('e, 'x) run_state" +
  cpc :: caller_pc
  wpc :: worker_pc

text \<open>The future is ready when the task's lambda has come to its end.\<close>

definition future_ready :: "('e, 'x) system \<Rightarrow> bool" where
  "future_ready s = (wpc s = W_run \<and> finished (rpc s))"

definition caller_step :: "('e, 'x) system \<Rightarrow> ('e, 'x) system" where
  "caller_step s =
     (case cpc s of
        C_idle \<Rightarrow>
          if t_mutex (timer s) = None
          then s\<lparr>timer := (timer s)\<lparr>t_mutex := Some Caller\<rparr>, cpc := C_launch\<rparr>
          else s
      | C_launch \<Rightarrow>
          s\<lparr>timer := (timer s)\<lparr>t_running_fn := Some Async_task\<rparr>, wpc := W_lock, cpc := C_wait\<rparr>
      | C_wait \<Rightarrow>
          s\<lparr>timer := (timer s)\<lparr>t_mutex := None,
                 t_async_run_started := insert Caller (t_async_run_started (timer s))\<rparr>,
            cpc := C_blocked\<rparr>
      | C_blocked \<Rightarrow>
          if Caller \<in> t_async_run_started (timer s) then s
          else if t_mutex (timer s) = None
          then s\<lparr>timer := (timer s)\<lparr>t_mutex := Some Caller\<rparr>, cpc := C_unlock\<rparr>
          else s
      | C_unlock \<Rightarrow> s\<lparr>timer := (timer s)\<lparr>t_mutex := None\<rparr>, cpc := C_returned\<rparr>
      | C_returned \<Rightarrow>
          (case t_running_fn (timer s) of
             None \<Rightarrow> s\<lparr>cpc := C_destroyed\<rparr>
           | Some f \<Rightarrow> if future_ready s then s\<lparr>cpc := C_destroyed\<rparr> else s)
      | C_destroyed \<Rightarrow> s)"

definition worker_step :: "('e, 'x) Fn_t \<Rightarrow> ('e, 'x) system \<Rightarrow> ('e, 'x) system" where
  "worker_step fn s =
     (case wpc s of
        W_unborn \<Rightarrow> s
      | W_lock \<Rightarrow>
          if t_mutex (timer s) = None
          then s\<lparr>timer := (timer s)\<lparr>t_mutex := Some Worker\<rparr>, wpc := W_notify\<rparr>
          else s
      | W_notify \<Rightarrow> s\<lparr>timer := (timer s)\<lparr>t_async_run_started := {}\<rparr>, wpc := W_unlock\<rparr>
      | W_unlock \<Rightarrow> s\<lparr>timer := (timer s)\<lparr>t_mutex := None\<rparr>, wpc := W_run\<rparr>
      | W_run \<Rightarrow> run_step fn s)"

text \<open>
  A schedule of the whole system: the caller moves, the worker moves, some thread
  calls \<open>stop\<close> (on the object while it exists), or the blocked caller wakes up
  without a notification, which \<open>std::condition_variable::wait\<close> is allowed to do.
  A thread that is scheduled while it is blocked does not move.
\<close>

datatype action = Caller_step | Worker_step | Stop_call | Spurious_wakeup

definition sys_step :: "('e, 'x) Fn_t \<Rightarrow> action \<Rightarrow> ('e, 'x) system \<Rightarrow> ('e, 'x) system" where
  "sys_step fn a s =
     (case a of
        Caller_step \<Rightarrow> caller_step s
      | Worker_step \<Rightarrow> worker_step fn s
      | Stop_call \<Rightarrow> if cpc s = C_destroyed then s else s\<lparr>timer := stop (timer s)\<rparr>
      | Spurious_wakeup \<Rightarrow>
          s\<lparr>timer := (timer s)\<lparr>t_async_run_started := t_async_run_started (timer s) - {Caller}\<rparr>\<rparr>)"

primrec sys_exec :: "('e, 'x) Fn_t \<Rightarrow> action list \<Rightarrow> ('e, 'x) system \<Rightarrow> ('e, 'x) system" where
  "sys_exec fn [] s = s"
| "sys_exec fn (a # as) s = sys_exec fn as (sys_step fn a s)"

definition sys_init :: "'e \<Rightarrow> ('e, 'x) system" where
  "sys_init e =
     \<lparr>timer = not_a_timer_init, env = e, rpc = R_keep, calls = 0, cpc = C_idle, wpc = W_unborn\<rparr>"

section \<open>Predicates used in the proofs\<close>

text \<open>One invocation is in flight: the flag was read as true, \<open>fn()\<close> has not returned.\<close>

definition in_flight :: "('e, 'x, 'z) run_state_scheme \<Rightarrow> nat" where
  "in_flight s = (if rpc s = R_call then 1 else 0)"

text \<open>
  The loop was left because of what the last invocation did: it returned false, or it
  threw, and the environment is the one that invocation left.
\<close>

definition natural_exit :: "('e, 'x) Fn_t \<Rightarrow> 'x completion \<Rightarrow> 'e \<Rightarrow> bool" where
  "natural_exit fn c e =
     (case c of
        Normal \<Rightarrow> \<exists>e0. fn e0 = (Returned False, e)
      | Exceptional x \<Rightarrow> \<exists>e0. fn e0 = (Threw x, e))"

text \<open>The completion with which the loop has been left, if it has.\<close>

fun completion_of :: "'x run_pc \<Rightarrow> 'x completion option" where
  "completion_of (R_exit c) = Some c"
| "completion_of (R_done c) = Some c"
| "completion_of _ = None"

text \<open>What holds of a thread in \<open>run\<close> as long as nobody has called \<open>stop\<close>.\<close>

definition unstopped_inv :: "('e, 'x) Fn_t \<Rightarrow> ('e, 'x, 'z) run_state_scheme \<Rightarrow> bool" where
  "unstopped_inv fn s =
     (case rpc s of
        R_keep \<Rightarrow> True
      | R_is \<Rightarrow> t_keep_running (timer s)
      | R_test \<Rightarrow> t_keep_running (timer s)
      | R_call \<Rightarrow> t_keep_running (timer s)
      | R_exit c \<Rightarrow> natural_exit fn c (env s)
      | R_done c \<Rightarrow> natural_exit fn c (env s))"

text \<open>
  What holds in every reachable state of the caller and the worker: the worker exists
  and the future is stored from line 57 on, the mutex is held exactly between the program
  points that lock and unlock it, the worker touches the flags only inside \<open>run\<close>,
  \<open>_is_running\<close> is true exactly inside the loop interval, and the destructor has
  completed only if the future is ready.
\<close>

definition sys_inv :: "('e, 'x) system \<Rightarrow> bool" where
  "sys_inv s =
     ((wpc s = W_unborn) = (cpc s = C_idle \<or> cpc s = C_launch) \<and>
      (t_running_fn (timer s) = None) = (cpc s = C_idle \<or> cpc s = C_launch) \<and>
      (t_mutex (timer s) = Some Caller) = (cpc s = C_launch \<or> cpc s = C_wait \<or> cpc s = C_unlock) \<and>
      (t_mutex (timer s) = Some Worker) = (wpc s = W_notify \<or> wpc s = W_unlock) \<and>
      (cpc s = C_wait \<longrightarrow> wpc s = W_lock) \<and>
      (wpc s = W_run \<or> rpc s = R_keep) \<and>
      t_is_running (timer s) = in_loop (rpc s) \<and>
      (cpc s = C_destroyed \<longrightarrow> future_ready s))"

text \<open>
  What holds in addition as long as no wake-up was spurious: the caller stays in the wait
  set until the worker's \<open>notify_all\<close>, so it leaves \<open>wait\<close> only after the worker
  has released the mutex at the end of \<open>_notify_async_run_started\<close>.
\<close>

definition handshake_inv :: "('e, 'x) system \<Rightarrow> bool" where
  "handshake_inv s =
     ((Caller \<in> t_async_run_started (timer s))
        = (cpc s = C_blocked \<and> (wpc s = W_lock \<or> wpc s = W_notify)) \<and>
      (cpc s = C_unlock \<or> cpc s = C_returned \<or> cpc s = C_destroyed \<longrightarrow> wpc s = W_run))"

lemmas exec_defs =
  sys_step_def caller_step_def worker_step_def run_step_def run_event_def stop_def
  is_running_def sys_init_def run_init_def not_a_timer_init_def future_ready_def countdown_def

section \<open>Synchronous termination\<close>

lemma run_loop_natural:
  "t_keep_running t \<Longrightarrow>
   (\<forall>k<M. fst (fn (env_after fn k e)) = Returned True) \<Longrightarrow>
   fst (fn (env_after fn M e)) = Returned False \<Longrightarrow>
   run_loop fn t e n = Some (Normal, t, env_after fn (Suc M) e, n + Suc M)"
proof (induction M arbitrary: e n)
  case 0
  then show ?case
    by (subst run_loop.simps) (auto split: prod.splits outcome.splits)
next
  case (Suc M)
  from Suc.prems(2) have first: "fst (fn e) = Returned True"
    by (metis env_after.simps(1) zero_less_Suc)
  have rest: "\<forall>k<M. fst (fn (env_after fn k (snd (fn e)))) = Returned True"
    using Suc.prems(2) by (metis Suc_less_eq env_after.simps(2))
  have last: "fst (fn (env_after fn M (snd (fn e)))) = Returned False"
    using Suc.prems(3) by simp
  have "run_loop fn t e n = run_loop fn t (snd (fn e)) (Suc n)"
    using first Suc.prems(1) by (subst run_loop.simps) (auto split: prod.splits outcome.splits)
  also have "\<dots> = Some (Normal, t, env_after fn (Suc M) (snd (fn e)), Suc n + Suc M)"
    by (rule Suc.IH [OF Suc.prems(1) rest last])
  finally show ?case by simp
qed

lemma env_after_countdown: "env_after countdown k c = c - of_nat k"
  by (induction k arbitrary: c) (simp_all add: countdown_def)

lemma countdown_continues:
  assumes "k < 99"
  shows "(0::64 word) < 100 - of_nat k - 1"
proof -
  have "(100::64 word) - of_nat k - 1 = of_nat (99 - k)"
    using assms by simp
  moreover have "of_nat (99 - k) \<noteq> (0::64 word)"
  proof (rule of_nat_neq_0)
    show "0 < 99 - k" using assms by simp
    show "99 - k < 2 ^ LENGTH(64)" by (rule le_less_trans [of _ 99]) simp_all
  qed
  ultimately show ?thesis by (simp add: word_gt_0)
qed

text \<open>
  C2. Let \<open>N \<ge> 1\<close> and let the step function return true on its first \<open>N - 1\<close>
  invocations and false on the \<open>N\<close>-th. Then \<open>run\<close>, with no concurrent \<open>stop\<close>,
  returns normally after exactly \<open>N\<close> invocations, with the environment that \<open>N\<close>
  invocations leave, \<open>_is_running\<close> cleared and \<open>_keep_running\<close> set.
\<close>

theorem run_invokes_exactly_N:
  assumes "1 \<le> N"
    and "\<forall>k. k < N - 1 \<longrightarrow> fst (fn (env_after fn k e)) = Returned True"
    and "fst (fn (env_after fn (N - 1) e)) = Returned False"
  shows "run fn t e =
    Some (Normal, t\<lparr>t_keep_running := True, t_is_running := False\<rparr>, env_after fn N e, N)"
proof -
  obtain M where N: "N = Suc M" using assms(1) by (cases N) auto
  let ?t2 = "t\<lparr>t_keep_running := True, t_is_running := True\<rparr>"
  have "run_loop fn ?t2 e 0 = Some (Normal, ?t2, env_after fn (Suc M) e, 0 + Suc M)"
    using assms(2,3) unfolding N by (intro run_loop_natural) auto
  then show ?thesis by (simp add: run_def janitor_def N)
qed

text \<open>
  The test \<open>runs_synchronously\<close>: the counter starts at 100, the step function is
  invoked exactly 100 times and the counter is 0 when \<open>run\<close> returns.
\<close>

theorem run_invokes_exactly_N_witness:
  "run (countdown :: (64 word, unit) Fn_t) not_a_timer_init 100 =
     Some (Normal, not_a_timer_init, 0, 100)"
proof -
  have h1: "(1::nat) \<le> 100" by simp
  have h2: "\<forall>k. k < 100 - 1 \<longrightarrow>
    fst ((countdown :: (64 word, unit) Fn_t) (env_after countdown k 100)) = Returned True"
    using countdown_continues by (simp add: env_after_countdown countdown_def)
  have h3: "fst ((countdown :: (64 word, unit) Fn_t) (env_after countdown (100 - 1) 100))
    = Returned False"
    by (simp add: env_after_countdown countdown_def)
  show ?thesis
    using run_invokes_exactly_N [OF h1 h2 h3, of not_a_timer_init]
    by (simp add: env_after_countdown not_a_timer_init_def)
qed

section \<open>Facts about \<open>run\<close> without interference\<close>

lemma run_loop_result:
  "run_loop fn t e n = Some r \<Longrightarrow>
   fst (snd r) = t \<and> n \<le> snd (snd (snd r)) \<and> (t_keep_running t \<longrightarrow> n < snd (snd (snd r)))"
proof (induction fn t e n r rule: run_loop.raw_induct [rotated 1, consumes 1])
  case (1 run_loop fn t e n r)
  show ?case
  proof (cases "t_keep_running t")
    case False
    with 1(2) show ?thesis by auto
  next
    case True
    obtain o' e' where fn: "fn e = (o', e')" by (cases "fn e")
    show ?thesis
    proof (cases o')
      case (Threw x)
      with 1(2) True fn show ?thesis by auto
    next
      case (Returned b)
      show ?thesis
      proof (cases b)
        case False
        with 1(2) True fn Returned show ?thesis by auto
      next
        case b: True
        with 1(2) True fn Returned have "run_loop fn t e' (Suc n) = Some r" by simp
        from 1(1) [OF this] show ?thesis by auto
      qed
    qed
  qed
qed

lemma run_result:
  assumes "run fn t e = Some (c, t', e', n)"
  shows "1 \<le> n" and "t' = t\<lparr>t_keep_running := True, t_is_running := False\<rparr>"
proof -
  let ?t2 = "t\<lparr>t_keep_running := True, t_is_running := True\<rparr>"
  from assms obtain t2' where loop: "run_loop fn ?t2 e 0 = Some (c, t2', e', n)"
    and t': "t' = t2'\<lparr>t_is_running := False\<rparr>"
    by (auto simp: run_def janitor_def split: option.splits)
  from run_loop_result [OF loop] show "1 \<le> n" by simp
  from run_loop_result [OF loop] t' show "t' = t\<lparr>t_keep_running := True, t_is_running := False\<rparr>"
    by simp
qed

lemma run_after_stop: "run fn (stop t) e = run fn t e"
  by (simp add: run_def stop_def)

lemma run_loop_throws:
  "t_keep_running t \<Longrightarrow> fn e = (Threw x, e') \<Longrightarrow>
   run_loop fn t e n = Some (Exceptional x, t, e', Suc n)"
  by (subst run_loop.simps) simp

section \<open>Facts about the thread in \<open>run\<close> under interference\<close>

lemma run_event_calls_mono: "calls s \<le> calls (run_event fn ev s)"
  by (cases ev; cases "rpc s")
     (auto simp: run_event_def run_step_def split: prod.splits outcome.splits)

lemma run_exec_calls_mono: "calls s \<le> calls (run_exec fn sched s)"
proof (induction sched arbitrary: s)
  case Nil
  show ?case by simp
next
  case (Cons ev sched)
  have "calls s \<le> calls (run_event fn ev s)" by (rule run_event_calls_mono)
  also have "\<dots> \<le> calls (run_exec fn sched (run_event fn ev s))" by (rule Cons.IH)
  finally show ?case by simp
qed

lemma run_exec_append: "run_exec fn (xs @ ys) s = run_exec fn ys (run_exec fn xs s)"
  by (induction xs arbitrary: s) simp_all

text \<open>
  Once the flag is false and the store of line 49 is behind, the flag stays false and
  the only invocation still to come is the one in flight.
\<close>

lemma stopped_event:
  assumes "rpc s \<noteq> R_keep" and "\<not> t_keep_running (timer s)"
  shows "rpc (run_event fn ev s) \<noteq> R_keep"
    and "\<not> t_keep_running (timer (run_event fn ev s))"
    and "calls (run_event fn ev s) + in_flight (run_event fn ev s) \<le> calls s + in_flight s"
  using assms
  by (cases ev; cases "rpc s";
      auto simp: run_event_def run_step_def stop_def in_flight_def
           split: prod.splits outcome.splits)+

lemma stopped_exec:
  assumes "rpc s \<noteq> R_keep" and "\<not> t_keep_running (timer s)"
  shows "calls (run_exec fn sched s) + in_flight (run_exec fn sched s) \<le> calls s + in_flight s"
  using assms
proof (induction sched arbitrary: s)
  case Nil
  show ?case by simp
next
  case (Cons ev sched)
  let ?s = "run_event fn ev s"
  have "calls (run_exec fn sched ?s) + in_flight (run_exec fn sched ?s) \<le> calls ?s + in_flight ?s"
    using Cons.prems by (intro Cons.IH stopped_event)
  also have "\<dots> \<le> calls s + in_flight s"
    using Cons.prems by (rule stopped_event)
  finally show ?case by simp
qed

lemma liveness_event:
  "t_is_running (timer s) = in_loop (rpc s) \<Longrightarrow>
   t_is_running (timer (run_event fn ev s)) = in_loop (rpc (run_event fn ev s))"
  by (cases ev; cases "rpc s")
     (auto simp: run_event_def run_step_def stop_def split: prod.splits outcome.splits)

lemma liveness_exec:
  "t_is_running (timer s) = in_loop (rpc s) \<Longrightarrow>
   t_is_running (timer (run_exec fn sched s)) = in_loop (rpc (run_exec fn sched s))"
  by (induction sched arbitrary: s) (simp_all add: liveness_event)

lemma cleared_event:
  "(finished (rpc s) \<Longrightarrow> \<not> t_is_running (timer s)) \<Longrightarrow>
   finished (rpc (run_event fn ev s)) \<Longrightarrow> \<not> t_is_running (timer (run_event fn ev s))"
  by (cases ev; cases "rpc s")
     (auto simp: run_event_def run_step_def stop_def split: prod.splits outcome.splits if_splits)

lemma cleared_exec:
  "(finished (rpc s) \<Longrightarrow> \<not> t_is_running (timer s)) \<Longrightarrow>
   finished (rpc (run_exec fn sched s)) \<Longrightarrow> \<not> t_is_running (timer (run_exec fn sched s))"
proof (induction sched arbitrary: s)
  case Nil
  then show ?case by simp
next
  case (Cons ev sched)
  show ?case
    unfolding run_exec.simps
  proof (rule Cons.IH)
    show "\<not> t_is_running (timer (run_event fn ev s))" if "finished (rpc (run_event fn ev s))"
      using Cons.prems(1) that by (rule cleared_event)
    show "finished (rpc (run_exec fn sched (run_event fn ev s)))"
      using Cons.prems(2) by simp
  qed
qed

text \<open>The program points only move forward, so the loop is left at most once.\<close>

lemma left_loop_event:
  "\<not> iterating (rpc s) \<Longrightarrow> rpc s \<noteq> R_keep \<Longrightarrow> rpc s \<noteq> R_is \<Longrightarrow>
   \<not> iterating (rpc (run_event fn ev s)) \<and> rpc (run_event fn ev s) \<noteq> R_keep
     \<and> rpc (run_event fn ev s) \<noteq> R_is"
  by (cases ev; cases "rpc s") (auto simp: run_event_def run_step_def)

lemma left_loop_exits:
  "\<not> iterating (rpc s) \<Longrightarrow> rpc s \<noteq> R_keep \<Longrightarrow> rpc s \<noteq> R_is \<Longrightarrow> loop_exits fn sched s = 0"
proof (induction sched arbitrary: s)
  case Nil
  show ?case by simp
next
  case (Cons ev sched)
  from left_loop_event [OF Cons.prems, of fn ev]
  have "loop_exits fn sched (run_event fn ev s) = 0"
    by (intro Cons.IH) simp_all
  with Cons.prems(1) show ?case by simp
qed

lemma exit_event:
  "iterating (rpc s) \<Longrightarrow> \<not> iterating (rpc (run_event fn ev s)) \<Longrightarrow>
   rpc (run_event fn ev s) \<noteq> R_keep \<and> rpc (run_event fn ev s) \<noteq> R_is"
  by (cases ev; cases "rpc s")
     (auto simp: run_event_def run_step_def split: prod.splits outcome.splits if_splits)

lemma loop_exits_le_1: "loop_exits fn sched s \<le> 1"
proof (induction sched arbitrary: s)
  case Nil
  show ?case by simp
next
  case (Cons ev sched)
  show ?case
  proof (cases "iterating (rpc s) \<and> \<not> iterating (rpc (run_event fn ev s))")
    case True
    then have "loop_exits fn sched (run_event fn ev s) = 0"
      using exit_event [of s fn ev] by (intro left_loop_exits) simp_all
    then show ?thesis by simp
  next
    case False
    then show ?thesis using Cons.IH [of "run_event fn ev s"] by auto
  qed
qed

text \<open>An invocation in flight is counted before \<open>run\<close> can finish.\<close>

lemma in_flight_completes:
  "rpc s = R_call \<Longrightarrow> finished (rpc (run_exec fn sched s)) \<Longrightarrow>
   calls s < calls (run_exec fn sched s)"
proof (induction sched arbitrary: s)
  case Nil
  then show ?case by simp
next
  case (Cons ev sched)
  show ?case
  proof (cases ev)
    case Step
    have "calls (run_event fn ev s) = Suc (calls s)"
      using Cons.prems(1) Step
      by (auto simp: run_event_def run_step_def split: prod.splits outcome.splits)
    moreover have "calls (run_event fn ev s) \<le> calls (run_exec fn sched (run_event fn ev s))"
      by (rule run_exec_calls_mono)
    ultimately show ?thesis by simp
  next
    case Stop
    then have same: "rpc (run_event fn ev s) = R_call" "calls (run_event fn ev s) = calls s"
      using Cons.prems(1) by (simp_all add: run_event_def)
    from Cons.IH [OF same(1)] Cons.prems(2) same(2) show ?thesis by simp
  qed
qed

lemma stale_stops:
  "set pre \<subseteq> {Stop} \<Longrightarrow>
   rpc (run_exec fn pre s) = rpc s \<and> calls (run_exec fn pre s) = calls s
     \<and> env (run_exec fn pre s) = env s"
  by (induction pre arbitrary: s) (auto simp: run_event_def)

lemma first_three_steps:
  "rpc s = R_keep \<Longrightarrow> rpc (run_exec fn [Step, Step, Step] s) = R_call
     \<and> calls (run_exec fn [Step, Step, Step] s) = calls s"
  by (simp add: run_event_def run_step_def)

lemma unstopped_run_step: "unstopped_inv fn s \<Longrightarrow> unstopped_inv fn (run_step fn s)"
  by (cases "rpc s")
     (auto simp: unstopped_inv_def run_step_def natural_exit_def split: prod.splits outcome.splits)

lemma unstopped_run_exec:
  "unstopped_inv fn s \<Longrightarrow> Stop \<notin> set sched \<Longrightarrow> unstopped_inv fn (run_exec fn sched s)"
proof (induction sched arbitrary: s)
  case Nil
  then show ?case by simp
next
  case (Cons ev sched)
  from Cons.prems(2) have ev: "ev = Step" and rest: "Stop \<notin> set sched"
    by (cases ev; simp)+
  from Cons.prems(1) have "unstopped_inv fn (run_event fn ev s)"
    unfolding ev by (simp add: run_event_def unstopped_run_step)
  from Cons.IH [OF this rest] show ?case by simp
qed

lemma finished_natural:
  "unstopped_inv fn s \<Longrightarrow> finished (rpc s) \<Longrightarrow> \<exists>c. rpc s = R_done c \<and> natural_exit fn c (env s)"
  by (cases "rpc s") (simp_all add: unstopped_inv_def)

lemma natural_exit_countdown: "natural_exit countdown c count \<Longrightarrow> count = 0"
  by (cases c) (auto simp: natural_exit_def countdown_def word_gt_0)

text \<open>
  Why the loop was left with a normal completion: the flag was read as false at the loop
  condition, or the invocation just made returned false. After that the completion and
  the environment stay as they are.
\<close>

lemma left_event:
  "completion_of (rpc s) = Some c \<Longrightarrow>
   completion_of (rpc (run_event fn ev s)) = Some c \<and> env (run_event fn ev s) = env s"
  by (cases ev; cases "rpc s") (auto simp: run_event_def run_step_def)

lemma left_exec:
  "completion_of (rpc s) = Some c \<Longrightarrow>
   completion_of (rpc (run_exec fn sched s)) = Some c \<and> env (run_exec fn sched s) = env s"
proof (induction sched arbitrary: s)
  case Nil
  then show ?case by simp
next
  case (Cons ev sched)
  from left_event [OF Cons.prems, of fn ev] Cons.IH [of "run_event fn ev s"]
  show ?case by simp
qed

lemma leaving_event:
  assumes "completion_of (rpc s) = None"
    and "completion_of (rpc (run_event fn ev s)) = Some Normal"
  shows "ev = Step \<and> (rpc s = R_test \<and> \<not> t_keep_running (timer s)
    \<or> fn (env s) = (Returned False, env (run_event fn ev s)))"
  using assms
  by (cases ev; cases "rpc s")
     (auto simp: run_event_def run_step_def split: prod.splits outcome.splits if_splits)

lemma exit_reason:
  "completion_of (rpc s) = None \<Longrightarrow>
   completion_of (rpc (run_exec fn sched s)) = Some Normal \<Longrightarrow>
   (\<exists>pre post. sched = pre @ Step # post \<and> rpc (run_exec fn pre s) = R_test
      \<and> \<not> t_keep_running (timer (run_exec fn pre s)))
   \<or> (\<exists>e0. fn e0 = (Returned False, env (run_exec fn sched s)))"
proof (induction sched arbitrary: s)
  case Nil
  then show ?case by simp
next
  case (Cons ev sched)
  let ?s1 = "run_event fn ev s"
  show ?case
  proof (cases "completion_of (rpc ?s1)")
    case None
    from Cons.IH [OF None] Cons.prems(2)
    consider pre post where "sched = pre @ Step # post" "rpc (run_exec fn pre ?s1) = R_test"
        "\<not> t_keep_running (timer (run_exec fn pre ?s1))"
      | e0 where "fn e0 = (Returned False, env (run_exec fn sched ?s1))"
      by auto
    then show ?thesis
    proof cases
      case 1
      then have "ev # sched = (ev # pre) @ Step # post
        \<and> rpc (run_exec fn (ev # pre) s) = R_test
        \<and> \<not> t_keep_running (timer (run_exec fn (ev # pre) s))"
        by simp
      then show ?thesis by blast
    next
      case 2
      then show ?thesis by auto
    qed
  next
    case (Some c)
    from left_exec [OF Some, of fn sched] Cons.prems(2)
    have c: "c = Normal" and e: "env (run_exec fn (ev # sched) s) = env ?s1" by simp_all
    from Some c have "completion_of (rpc ?s1) = Some Normal" by simp
    from leaving_event [OF Cons.prems(1) this]
    have ev: "ev = Step" and why: "rpc s = R_test \<and> \<not> t_keep_running (timer s)
      \<or> fn (env s) = (Returned False, env ?s1)"
      by blast+
    from why show ?thesis
    proof
      assume "rpc s = R_test \<and> \<not> t_keep_running (timer s)"
      then have "ev # sched = [] @ Step # sched \<and> rpc (run_exec fn [] s) = R_test
        \<and> \<not> t_keep_running (timer (run_exec fn [] s))"
        using ev by simp
      then show ?thesis by blast
    next
      assume "fn (env s) = (Returned False, env ?s1)"
      then have "fn (env s) = (Returned False, env (run_exec fn (ev # sched) s))"
        using e by simp
      then show ?thesis by blast
    qed
  qed
qed

section \<open>The two descriptions of \<open>run\<close> agree\<close>

text \<open>
  Whatever \<open>run\<close> returns when nothing interferes, the thread reaches by taking its
  own steps only: the same completion, flags, environment and number of invocations.
\<close>

lemma run_loop_simulated:
  "run_loop fn t e n = Some r \<Longrightarrow>
   \<exists>k. run_exec fn (replicate k Step) \<lparr>timer = t, env = e, rpc = R_test, calls = n\<rparr>
     = \<lparr>timer = t, env = fst (snd (snd r)), rpc = R_exit (fst r), calls = snd (snd (snd r))\<rparr>"
proof (induction fn t e n r rule: run_loop.raw_induct [rotated 1, consumes 1])
  case (1 run_loop fn t e n r)
  let ?s = "\<lparr>timer = t, env = e, rpc = R_test, calls = n\<rparr>"
  show ?case
  proof (cases "t_keep_running t")
    case False
    with 1(2) have "run_exec fn (replicate 1 Step) ?s
      = \<lparr>timer = t, env = fst (snd (snd r)), rpc = R_exit (fst r), calls = snd (snd (snd r))\<rparr>"
      by (auto simp: run_event_def run_step_def)
    then show ?thesis by blast
  next
    case True
    obtain o' e' where fn: "fn e = (o', e')" by (cases "fn e")
    show ?thesis
    proof (cases "o' = Returned True")
      case False
      with 1(2) True fn have "run_exec fn (replicate 2 Step) ?s
        = \<lparr>timer = t, env = fst (snd (snd r)), rpc = R_exit (fst r), calls = snd (snd (snd r))\<rparr>"
        by (cases o') (auto simp: run_event_def run_step_def numeral_2_eq_2)
      then show ?thesis by blast
    next
      case b: True
      with 1(2) True fn have "run_loop fn t e' (Suc n) = Some r" by simp
      from 1(1) [OF this] obtain k where
        k: "run_exec fn (replicate k Step) \<lparr>timer = t, env = e', rpc = R_test, calls = Suc n\<rparr>
          = \<lparr>timer = t, env = fst (snd (snd r)), rpc = R_exit (fst r), calls = snd (snd (snd r))\<rparr>"
        by blast
      have two: "run_exec fn [Step, Step] ?s = \<lparr>timer = t, env = e', rpc = R_test, calls = Suc n\<rparr>"
        using True fn b by (simp add: run_event_def run_step_def)
      have "run_exec fn (replicate (Suc (Suc k)) Step) ?s
        = run_exec fn (replicate k Step) (run_exec fn [Step, Step] ?s)"
        by simp
      with two k show ?thesis by metis
    qed
  qed
qed

lemma run_simulated:
  assumes "run fn t e = Some (c, t', e', n)"
  shows "\<exists>k. run_exec fn (replicate k Step) (run_init t e)
    = \<lparr>timer = t', env = e', rpc = R_done c, calls = n\<rparr>"
proof -
  let ?t2 = "t\<lparr>t_keep_running := True, t_is_running := True\<rparr>"
  from assms obtain t2' where loop: "run_loop fn ?t2 e 0 = Some (c, t2', e', n)"
    and t': "t' = t2'\<lparr>t_is_running := False\<rparr>"
    by (auto simp: run_def janitor_def split: option.splits)
  from run_loop_result [OF loop] have t2': "t2' = ?t2" by simp
  from run_loop_simulated [OF loop] obtain k where
    k: "run_exec fn (replicate k Step) \<lparr>timer = ?t2, env = e, rpc = R_test, calls = 0\<rparr>
      = \<lparr>timer = ?t2, env = e', rpc = R_exit c, calls = n\<rparr>"
    by auto
  have start: "run_exec fn [Step, Step] (run_init t e)
    = \<lparr>timer = ?t2, env = e, rpc = R_test, calls = 0\<rparr>"
    by (simp add: run_init_def run_event_def run_step_def)
  have "run_exec fn (replicate (Suc (Suc k) + 1) Step) (run_init t e)
    = run_exec fn [Step] (run_exec fn (replicate k Step) (run_exec fn [Step, Step] (run_init t e)))"
    unfolding replicate_add run_exec_append by simp
  also have "\<dots> = \<lparr>timer = t', env = e', rpc = R_done c, calls = n\<rparr>"
    unfolding start k using t' t2' by (simp add: run_event_def run_step_def)
  finally show ?thesis by blast
qed

text \<open>
  Conversely, when the thread, taking its own steps only, has come to the end of
  \<open>run\<close>, then \<open>run\<close> without interference returns, with the same completion,
  environment and number of invocations.
\<close>

lemma left_step:
  "completion_of (rpc s) = Some c \<Longrightarrow>
   completion_of (rpc (run_step fn s)) = Some c \<and> env (run_step fn s) = env s
     \<and> calls (run_step fn s) = calls s"
  by (cases "rpc s") (auto simp: run_step_def)

lemma left_steps:
  "completion_of (rpc s) = Some c \<Longrightarrow>
   completion_of (rpc (run_exec fn (replicate k Step) s)) = Some c
     \<and> env (run_exec fn (replicate k Step) s) = env s
     \<and> calls (run_exec fn (replicate k Step) s) = calls s"
proof (induction k arbitrary: s)
  case 0
  then show ?case by simp
next
  case (Suc k)
  from left_step [OF Suc.prems, of fn] Suc.IH [of "run_step fn s"]
  show ?case by (simp add: run_event_def)
qed

lemma run_loop_complete:
  "completion_of (rpc (run_exec fn (replicate k Step) \<lparr>timer = t, env = e, rpc = R_test, calls = n\<rparr>))
     = Some c \<Longrightarrow>
   run_loop fn t e n = Some (c, t,
     env (run_exec fn (replicate k Step) \<lparr>timer = t, env = e, rpc = R_test, calls = n\<rparr>),
     calls (run_exec fn (replicate k Step) \<lparr>timer = t, env = e, rpc = R_test, calls = n\<rparr>))"
proof (induction k arbitrary: e n rule: less_induct)
  case (less k)
  let ?s = "\<lparr>timer = t, env = e, rpc = R_test, calls = n\<rparr>"
  from less.prems obtain k1 where k: "k = Suc k1" by (cases k) auto
  show ?case
  proof (cases "t_keep_running t")
    case False
    let ?s1 = "\<lparr>timer = t, env = e, rpc = R_exit Normal, calls = n\<rparr>"
    have s1: "run_exec fn (replicate k Step) ?s = run_exec fn (replicate k1 Step) ?s1"
      using False by (simp add: k run_event_def run_step_def)
    from left_steps [of ?s1 Normal fn k1] less.prems s1
    have "c = Normal" "env (run_exec fn (replicate k Step) ?s) = e"
      "calls (run_exec fn (replicate k Step) ?s) = n"
      by simp_all
    then show ?thesis using False by (subst run_loop.simps) simp
  next
    case True
    let ?s1 = "\<lparr>timer = t, env = e, rpc = R_call, calls = n\<rparr>"
    have s1: "run_exec fn (replicate k Step) ?s = run_exec fn (replicate k1 Step) ?s1"
      using True by (simp add: k run_event_def run_step_def)
    with less.prems obtain k2 where k1: "k1 = Suc k2" by (cases k1) auto
    obtain o' e' where fn: "fn e = (o', e')" by (cases "fn e")
    show ?thesis
    proof (cases "o' = Returned True")
      case again: True
      let ?s2 = "\<lparr>timer = t, env = e', rpc = R_test, calls = Suc n\<rparr>"
      have s2: "run_exec fn (replicate k Step) ?s = run_exec fn (replicate k2 Step) ?s2"
        unfolding s1 using fn again by (simp add: k1 run_event_def run_step_def)
      have "run_loop fn t e' (Suc n) = Some (c, t, env (run_exec fn (replicate k2 Step) ?s2),
        calls (run_exec fn (replicate k2 Step) ?s2))"
        using less.prems unfolding s2 by (intro less.IH) (simp_all add: k k1)
      moreover have "run_loop fn t e n = run_loop fn t e' (Suc n)"
        using True fn again by (subst run_loop.simps) simp
      ultimately show ?thesis unfolding s2 by simp
    next
      case False
      define c' where "c' = (case o' of Returned b \<Rightarrow> Normal | Threw x \<Rightarrow> Exceptional x)"
      let ?s2 = "\<lparr>timer = t, env = e', rpc = R_exit c', calls = Suc n\<rparr>"
      have s2: "run_exec fn (replicate k Step) ?s = run_exec fn (replicate k2 Step) ?s2"
        unfolding s1 using fn False
        by (cases o') (simp_all add: k1 run_event_def run_step_def c'_def)
      from left_steps [of ?s2 c' fn k2] less.prems s2
      have "c = c'" "env (run_exec fn (replicate k Step) ?s) = e'"
        "calls (run_exec fn (replicate k Step) ?s) = Suc n"
        by simp_all
      then show ?thesis using True fn False
        by (subst run_loop.simps) (cases o'; simp add: c'_def)
    qed
  qed
qed

lemma run_complete:
  assumes "rpc (run_exec fn (replicate k Step) (run_init t e)) = R_done c"
  shows "run fn t e = Some (c, t\<lparr>t_keep_running := True, t_is_running := False\<rparr>,
    env (run_exec fn (replicate k Step) (run_init t e)),
    calls (run_exec fn (replicate k Step) (run_init t e)))"
proof -
  let ?t2 = "t\<lparr>t_keep_running := True, t_is_running := True\<rparr>"
  let ?s2 = "\<lparr>timer = ?t2, env = e, rpc = R_test, calls = 0\<rparr>"
  from assms obtain k1 where k: "k = Suc k1" by (cases k) (auto simp: run_init_def)
  with assms obtain k2 where k1: "k1 = Suc k2"
    by (cases k1) (auto simp: run_init_def run_event_def run_step_def)
  have s2: "run_exec fn (replicate k Step) (run_init t e) = run_exec fn (replicate k2 Step) ?s2"
    by (simp add: k k1 run_init_def run_event_def run_step_def)
  from assms have "completion_of (rpc (run_exec fn (replicate k2 Step) ?s2)) = Some c"
    unfolding s2 by simp
  from run_loop_complete [OF this] show ?thesis
    unfolding s2 by (simp add: run_def janitor_def)
qed

section \<open>Facts about the caller and the worker\<close>

lemma engaged_future: "(f \<noteq> None) = (f = Some Async_task)"
  by (cases f; simp) (metis future.exhaust)

lemma sys_inv_init: "sys_inv (sys_init e)"
  by (simp add: sys_inv_def sys_init_def not_a_timer_init_def)

lemma handshake_inv_init: "handshake_inv (sys_init e)"
  by (simp add: handshake_inv_def sys_init_def not_a_timer_init_def)

lemma sys_inv_caller: "sys_inv s \<Longrightarrow> sys_inv (caller_step s)"
  by (cases "cpc s")
     (auto simp: sys_inv_def caller_step_def future_ready_def split: option.splits)

lemma sys_inv_run_step:
  "sys_inv s \<Longrightarrow> wpc s = W_run \<Longrightarrow> sys_inv (run_step fn s)"
  by (cases "rpc s")
     (auto simp: sys_inv_def run_step_def future_ready_def split: prod.splits outcome.splits)

lemma sys_inv_worker: "sys_inv s \<Longrightarrow> sys_inv (worker_step fn s)"
proof (cases "wpc s")
  case W_run
  assume "sys_inv s"
  then show ?thesis using W_run by (simp add: worker_step_def sys_inv_run_step)
qed (auto simp: sys_inv_def worker_step_def future_ready_def)

lemma sys_inv_step: "sys_inv s \<Longrightarrow> sys_inv (sys_step fn a s)"
proof (cases a)
  case Caller_step
  assume "sys_inv s"
  then show ?thesis using Caller_step by (simp add: sys_step_def sys_inv_caller)
next
  case Worker_step
  assume "sys_inv s"
  then show ?thesis using Worker_step by (simp add: sys_step_def sys_inv_worker)
qed (auto simp: sys_inv_def sys_step_def stop_def future_ready_def)

lemma sys_inv_exec: "sys_inv s \<Longrightarrow> sys_inv (sys_exec fn sched s)"
  by (induction sched arbitrary: s) (simp_all add: sys_inv_step)

lemma run_step_frame:
  "cpc (run_step fn s) = cpc s" "wpc (run_step fn s) = wpc s"
  "t_async_run_started (timer (run_step fn s)) = t_async_run_started (timer s)"
  "t_mutex (timer (run_step fn s)) = t_mutex (timer s)"
  "t_running_fn (timer (run_step fn s)) = t_running_fn (timer s)"
  by (cases "rpc s"; simp add: run_step_def split: prod.splits outcome.splits)+

lemma caller_step_frame:
  "rpc (caller_step s) = rpc s" "env (caller_step s) = env s" "calls (caller_step s) = calls s"
  "t_keep_running (timer (caller_step s)) = t_keep_running (timer s)"
  "t_is_running (timer (caller_step s)) = t_is_running (timer s)"
  by (cases "cpc s"; simp add: caller_step_def split: option.splits)+

lemma handshake_inv_step:
  assumes "sys_inv s" and "handshake_inv s" and "a \<noteq> Spurious_wakeup"
  shows "handshake_inv (sys_step fn a s)"
proof (cases a)
  case Caller_step
  show ?thesis
    using assms(1,2) unfolding Caller_step
    by (cases "cpc s"; cases "wpc s")
       (auto simp: sys_step_def handshake_inv_def sys_inv_def caller_step_def split: option.splits)
next
  case Worker_step
  show ?thesis
    using assms(1,2) unfolding Worker_step
    by (cases "wpc s")
       (auto simp: sys_step_def handshake_inv_def sys_inv_def worker_step_def run_step_frame)
next
  case Stop_call
  show ?thesis
    using assms(2) unfolding Stop_call
    by (auto simp: sys_step_def handshake_inv_def stop_def)
next
  case Spurious_wakeup
  with assms(3) show ?thesis by simp
qed

lemma handshake_inv_exec:
  "sys_inv s \<Longrightarrow> handshake_inv s \<Longrightarrow> Spurious_wakeup \<notin> set sched \<Longrightarrow>
   handshake_inv (sys_exec fn sched s)"
proof (induction sched arbitrary: s)
  case Nil
  then show ?case by simp
next
  case (Cons a sched)
  from Cons.prems have "a \<noteq> Spurious_wakeup" "Spurious_wakeup \<notin> set sched" by auto
  with Cons.prems(1,2) show ?case
    by (simp add: Cons.IH sys_inv_step handshake_inv_step)
qed

lemma unstopped_sys_step:
  assumes "unstopped_inv fn s" and "a \<noteq> Stop_call"
  shows "unstopped_inv fn (sys_step fn a s)"
proof (cases a)
  case Caller_step
  with assms(1) show ?thesis
    by (cases "rpc s"; simp add: sys_step_def unstopped_inv_def caller_step_frame)
next
  case Worker_step
  show ?thesis
  proof (cases "wpc s")
    case W_run
    with assms(1) Worker_step show ?thesis
      by (simp add: sys_step_def worker_step_def unstopped_run_step)
  qed (use assms(1) Worker_step in
      \<open>auto simp: sys_step_def worker_step_def unstopped_inv_def split: run_pc.splits\<close>)
next
  case Stop_call
  with assms(2) show ?thesis by simp
next
  case Spurious_wakeup
  with assms(1) show ?thesis by (cases "rpc s"; simp add: sys_step_def unstopped_inv_def)
qed

lemma unstopped_sys_exec:
  "unstopped_inv fn s \<Longrightarrow> Stop_call \<notin> set sched \<Longrightarrow> unstopped_inv fn (sys_exec fn sched s)"
proof (induction sched arbitrary: s)
  case Nil
  then show ?case by simp
next
  case (Cons a sched)
  from Cons.prems(2) have a: "a \<noteq> Stop_call" and rest: "Stop_call \<notin> set sched" by auto
  from Cons.IH [OF unstopped_sys_step [OF Cons.prems(1) a] rest] show ?case by simp
qed

section \<open>Cleanup on every exit path\<close>

text \<open>
  C4. Whenever \<open>run\<close> has returned or has propagated an exception, \<open>_is_running\<close>
  is false again. This holds for every interleaving of the thread's steps with calls of
  \<open>stop\<close> and whatever the flags were before the call, so it covers the loop left
  because the step function returned false, because the stop flag was read as false, and
  because the step function threw. The second part says the same of the result of
  \<open>run\<close> without interference, where the janitor clears the flag on the normal and
  on the exceptional completion.
\<close>

theorem run_clears_is_running_on_every_exit:
  "(finished (rpc (run_exec fn sched (run_init t e))) \<longrightarrow>
      \<not> is_running (timer (run_exec fn sched (run_init t e))))
   \<and> (run fn t e = Some (c, t', e', n) \<longrightarrow> \<not> is_running t')"
proof (intro conjI impI)
  assume "finished (rpc (run_exec fn sched (run_init t e)))"
  then have "\<not> t_is_running (timer (run_exec fn sched (run_init t e)))"
    by (intro cleared_exec) (simp_all add: run_init_def)
  then show "\<not> is_running (timer (run_exec fn sched (run_init t e)))"
    by (simp add: is_running_def)
next
  assume "run fn t e = Some (c, t', e', n)"
  from run_result(2) [OF this] show "\<not> is_running t'" by (simp add: is_running_def)
qed

text \<open>
  A step function that throws on its first invocation, called on a Runner whose flag
  was true: the exception propagates and the flag is false. In the schedule a \<open>stop\<close>
  lands after the store of line 49, so the loop is left on the stop flag.
\<close>

theorem run_clears_is_running_on_every_exit_witness:
  "finished (rpc (run_exec (\<lambda>e::nat. (Threw ''failure'', Suc e)) [Step, Stop, Step, Step, Step, Step]
      (run_init (not_a_timer_init\<lparr>t_is_running := True\<rparr>) 0)))
   \<and> \<not> is_running (timer (run_exec (\<lambda>e::nat. (Threw ''failure'', Suc e))
      [Step, Stop, Step, Step, Step, Step] (run_init (not_a_timer_init\<lparr>t_is_running := True\<rparr>) 0)))
   \<and> run (\<lambda>e::nat. (Threw ''failure'', Suc e)) (not_a_timer_init\<lparr>t_is_running := True\<rparr>) 0
       = Some (Exceptional ''failure'', not_a_timer_init, 1, 1)
   \<and> \<not> is_running not_a_timer_init"
proof -
  have h1: "finished (rpc (run_exec (\<lambda>e::nat. (Threw ''failure'', Suc e))
      [Step, Stop, Step, Step, Step, Step] (run_init (not_a_timer_init\<lparr>t_is_running := True\<rparr>) 0)))"
    by (simp add: exec_defs)
  have h2: "run (\<lambda>e::nat. (Threw ''failure'', Suc e)) (not_a_timer_init\<lparr>t_is_running := True\<rparr>) 0
       = Some (Exceptional ''failure'', not_a_timer_init, 1, 1)"
    by (simp add: run_def janitor_def run_loop_throws not_a_timer_init_def)
  from run_clears_is_running_on_every_exit
    [of "\<lambda>e::nat. (Threw ''failure'', Suc e)" "[Step, Stop, Step, Step, Step, Step]"
        "not_a_timer_init\<lparr>t_is_running := True\<rparr>" 0 "Exceptional ''failure''"
        not_a_timer_init 1 1] h1 h2
  show ?thesis by blast
qed

section \<open>The stop flag is read before each invocation\<close>

text \<open>
  C5 as stated fails. It bounds the invocations that follow the moment the flag becomes
  false by the one in flight, but \<open>run\<close> begins with the store
  \<open>_keep_running = true\<close>: a \<open>stop\<close> that lands before that store is undone by
  it. First a thread that has entered \<open>run\<close> and not yet executed line 49: the flag
  becomes false, no invocation is in flight, and three invocations follow. Then the
  detached loop: \<open>stop\<close> is called after \<open>run_async\<close> has returned, while the
  worker has not reached line 49, and again the whole countdown follows.
\<close>

theorem stop_before_reset_counterexample:
  "\<not> t_keep_running (timer (run_exec (countdown :: (64 word, unit) Fn_t) [Stop]
        (run_init not_a_timer_init 3)))
   \<and> rpc (run_exec (countdown :: (64 word, unit) Fn_t) [Stop] (run_init not_a_timer_init 3)) = R_keep
   \<and> calls (run_exec (countdown :: (64 word, unit) Fn_t) [Stop] (run_init not_a_timer_init 3)) = 0
   \<and> calls (run_exec (countdown :: (64 word, unit) Fn_t)
        [Step, Step, Step, Step, Step, Step, Step, Step, Step]
        (run_exec (countdown :: (64 word, unit) Fn_t) [Stop] (run_init not_a_timer_init 3))) = 3
   \<and> cpc (sys_exec (countdown :: (64 word, unit) Fn_t)
        [Caller_step, Caller_step, Caller_step, Worker_step, Worker_step, Worker_step,
         Caller_step, Caller_step, Stop_call] (sys_init 3)) = C_returned
   \<and> \<not> t_keep_running (timer (sys_exec (countdown :: (64 word, unit) Fn_t)
        [Caller_step, Caller_step, Caller_step, Worker_step, Worker_step, Worker_step,
         Caller_step, Caller_step, Stop_call] (sys_init 3)))
   \<and> calls (sys_exec (countdown :: (64 word, unit) Fn_t)
        [Caller_step, Caller_step, Caller_step, Worker_step, Worker_step, Worker_step,
         Caller_step, Caller_step, Stop_call] (sys_init 3)) = 0
   \<and> calls (sys_exec (countdown :: (64 word, unit) Fn_t)
        [Worker_step, Worker_step, Worker_step, Worker_step, Worker_step, Worker_step,
         Worker_step, Worker_step, Worker_step]
        (sys_exec (countdown :: (64 word, unit) Fn_t)
          [Caller_step, Caller_step, Caller_step, Worker_step, Worker_step, Worker_step,
           Caller_step, Caller_step, Stop_call] (sys_init 3))) = 3"
  by (simp add: exec_defs)

text \<open>
  C5, amended. The step function is invoked only from the program point reached by
  reading \<open>_keep_running\<close> as true, and each invocation leads back to that read or
  out of the loop, so the flag is read before each invocation. Once the flag is false
  and the store of line 49 is behind, at most the invocation already in flight
  completes; if the flag is false when the loop condition is evaluated, the loop is left
  and the step function is never invoked again. A normal return of \<open>run\<close> has one
  of two causes: the flag was read as false at the loop condition, or the last
  invocation returned false. Nothing is said of a \<open>stop\<close> that lands before the
  store of line 49.
\<close>

theorem stop_checked_before_each_invocation:
  "(rpc (run_event fn ev s) = R_call \<longrightarrow>
      rpc s = R_test \<and> ev = Step \<and> t_keep_running (timer s) \<or> rpc s = R_call \<and> ev = Stop)
   \<and> (calls (run_event fn ev s) \<noteq> calls s \<longrightarrow>
      rpc s = R_call \<and> ev = Step \<and> calls (run_event fn ev s) = Suc (calls s)
      \<and> rpc (run_event fn ev s) \<noteq> R_call)
   \<and> (rpc s \<noteq> R_keep \<and> \<not> t_keep_running (timer s) \<longrightarrow>
      calls s \<le> calls (run_exec fn sched s)
      \<and> calls (run_exec fn sched s) \<le> calls s + (if rpc s = R_call then 1 else 0))
   \<and> (rpc s = R_test \<and> \<not> t_keep_running (timer s) \<longrightarrow>
      rpc (run_step fn s) = R_exit Normal \<and> calls (run_exec fn sched s) = calls s)
   \<and> (rpc (run_exec fn whole (run_init t e)) = R_done Normal \<longrightarrow>
      (\<exists>pre post. whole = pre @ Step # post
         \<and> rpc (run_exec fn pre (run_init t e)) = R_test
         \<and> \<not> t_keep_running (timer (run_exec fn pre (run_init t e))))
      \<or> (\<exists>e0. fn e0 = (Returned False, env (run_exec fn whole (run_init t e)))))"
proof -
  have entry: "rpc s = R_test \<and> ev = Step \<and> t_keep_running (timer s) \<or> rpc s = R_call \<and> ev = Stop"
    if "rpc (run_event fn ev s) = R_call"
    using that
    by (cases ev; cases "rpc s")
       (auto simp: run_event_def run_step_def split: prod.splits outcome.splits if_splits)
  have invoke: "rpc s = R_call \<and> ev = Step \<and> calls (run_event fn ev s) = Suc (calls s)
      \<and> rpc (run_event fn ev s) \<noteq> R_call"
    if "calls (run_event fn ev s) \<noteq> calls s"
    using that
    by (cases ev; cases "rpc s")
       (auto simp: run_event_def run_step_def split: prod.splits outcome.splits if_splits)
  have bound: "calls s \<le> calls (run_exec fn sched s)
      \<and> calls (run_exec fn sched s) \<le> calls s + (if rpc s = R_call then 1 else 0)"
    if a: "rpc s \<noteq> R_keep \<and> \<not> t_keep_running (timer s)"
  proof -
    from a have "calls (run_exec fn sched s) + in_flight (run_exec fn sched s) \<le> calls s + in_flight s"
      by (intro stopped_exec) simp_all
    then have "calls (run_exec fn sched s) \<le> calls s + (if rpc s = R_call then 1 else 0)"
      by (simp add: in_flight_def split: if_splits)
    with run_exec_calls_mono [of s fn sched] show ?thesis by simp
  qed
  have boundary: "rpc (run_step fn s) = R_exit Normal \<and> calls (run_exec fn sched s) = calls s"
    if a: "rpc s = R_test \<and> \<not> t_keep_running (timer s)"
  proof -
    from a have "rpc (run_step fn s) = R_exit Normal" by (simp add: run_step_def)
    moreover from a bound have "calls (run_exec fn sched s) = calls s" by simp
    ultimately show ?thesis by simp
  qed
  let ?s = "run_exec fn whole (run_init t e)"
  have reason: "(\<exists>pre post. whole = pre @ Step # post
         \<and> rpc (run_exec fn pre (run_init t e)) = R_test
         \<and> \<not> t_keep_running (timer (run_exec fn pre (run_init t e))))
      \<or> (\<exists>e0. fn e0 = (Returned False, env ?s))"
    if d: "rpc ?s = R_done Normal"
  proof (rule exit_reason)
    show "completion_of (rpc (run_init t e)) = None" by (simp add: run_init_def)
    show "completion_of (rpc ?s) = Some Normal" using d by simp
  qed
  from entry invoke bound boundary reason show ?thesis by blast
qed

text \<open>
  A \<open>stop\<close> lands while the second invocation is in flight: that invocation completes,
  the next read of the flag ends the loop, and the counter stays at 98. The last
  invocation returned true, so the cause of the return is the read of the flag.
\<close>

theorem stop_checked_before_each_invocation_witness:
  "rpc (run_exec (countdown :: (64 word, unit) Fn_t) [Step, Step, Step, Step, Step, Stop]
      (run_init not_a_timer_init 100)) = R_call
   \<and> \<not> t_keep_running (timer (run_exec (countdown :: (64 word, unit) Fn_t)
      [Step, Step, Step, Step, Step, Stop] (run_init not_a_timer_init 100)))
   \<and> calls (run_exec (countdown :: (64 word, unit) Fn_t) [Step, Step, Step, Step, Step, Stop]
      (run_init not_a_timer_init 100)) = 1
   \<and> calls (run_exec (countdown :: (64 word, unit) Fn_t) [Step, Step, Step, Step]
      (run_exec (countdown :: (64 word, unit) Fn_t) [Step, Step, Step, Step, Step, Stop]
        (run_init not_a_timer_init 100))) \<le> 2
   \<and> rpc (run_exec (countdown :: (64 word, unit) Fn_t)
      [Step, Step, Step, Step, Step, Stop, Step, Step, Step, Step]
      (run_init not_a_timer_init 100)) = R_done Normal
   \<and> env (run_exec (countdown :: (64 word, unit) Fn_t)
      [Step, Step, Step, Step, Step, Stop, Step, Step, Step, Step]
      (run_init not_a_timer_init 100)) = 98
   \<and> (\<exists>pre post. [Step, Step, Step, Step, Step, Stop, Step, Step, Step, Step] = pre @ Step # post
         \<and> rpc (run_exec (countdown :: (64 word, unit) Fn_t) pre (run_init not_a_timer_init 100))
             = R_test
         \<and> \<not> t_keep_running (timer (run_exec (countdown :: (64 word, unit) Fn_t) pre
             (run_init not_a_timer_init 100))))"
proof -
  let ?whole = "[Step, Step, Step, Step, Step, Stop, Step, Step, Step, Step]"
  let ?s = "run_exec (countdown :: (64 word, unit) Fn_t) [Step, Step, Step, Step, Step, Stop]
      (run_init not_a_timer_init 100)"
  let ?last = "run_exec (countdown :: (64 word, unit) Fn_t) ?whole (run_init not_a_timer_init 100)"
  have h: "rpc ?s \<noteq> R_keep \<and> \<not> t_keep_running (timer ?s)"
    by (simp add: exec_defs)
  have pc: "rpc ?s = R_call" and c: "calls ?s = 1"
    by (simp_all add: exec_defs)
  have fin: "rpc ?last = R_done Normal" and e: "env ?last = 98"
    by (simp_all add: exec_defs)
  note inst = stop_checked_before_each_invocation
    [of "countdown :: (64 word, unit) Fn_t" Step ?s "[Step, Step, Step, Step]" ?whole
        not_a_timer_init 100]
  from inst h
  have "calls (run_exec (countdown :: (64 word, unit) Fn_t) [Step, Step, Step, Step] ?s)
    \<le> calls ?s + (if rpc ?s = R_call then 1 else 0)"
    by blast
  then have b: "calls (run_exec (countdown :: (64 word, unit) Fn_t) [Step, Step, Step, Step] ?s) \<le> 2"
    unfolding pc c by simp
  have "\<not> (\<exists>e0. (countdown :: (64 word, unit) Fn_t) e0 = (Returned False, env ?last))"
    unfolding e by (auto simp: countdown_def)
  with inst fin
  have obs: "\<exists>pre post. ?whole = pre @ Step # post
         \<and> rpc (run_exec (countdown :: (64 word, unit) Fn_t) pre (run_init not_a_timer_init 100))
             = R_test
         \<and> \<not> t_keep_running (timer (run_exec (countdown :: (64 word, unit) Fn_t) pre
             (run_init not_a_timer_init 100)))"
    by blast
  from h pc c b fin e obs show ?thesis by blast
qed

section \<open>The reset at the start of \<open>run\<close>\<close>

text \<open>
  C6. The first action of every \<open>run\<close> is the store \<open>_keep_running = true\<close>, whatever
  the flag was. A \<open>stop\<close> before that store is overridden: the thread behaves as if it
  had not happened, \<open>stop(); run(f)\<close> gives what \<open>run(f)\<close> gives, and when it
  returns the step function has been invoked and the flag is true.
\<close>

theorem run_resets_keep_running:
  "t_keep_running (timer (run_step fn (run_init t e)))
   \<and> rpc (run_step fn (run_init t e)) = R_is
   \<and> run_exec fn (Stop # Step # sched) (run_init t e) = run_exec fn (Step # sched) (run_init t e)
   \<and> run fn (stop t) e = run fn t e
   \<and> (run fn (stop t) e = Some (c, t', e', n) \<longrightarrow> 1 \<le> n \<and> t_keep_running t')"
proof (intro conjI impI)
  show "t_keep_running (timer (run_step fn (run_init t e)))"
    and "rpc (run_step fn (run_init t e)) = R_is"
    by (simp_all add: run_step_def run_init_def)
  show "run_exec fn (Stop # Step # sched) (run_init t e) = run_exec fn (Step # sched) (run_init t e)"
    by (simp add: run_event_def run_step_def run_init_def stop_def)
  show "run fn (stop t) e = run fn t e" by (rule run_after_stop)
  assume r: "run fn (stop t) e = Some (c, t', e', n)"
  from run_result(1) [OF r] show "1 \<le> n" .
  from run_result(2) [OF r] show "t_keep_running t'" by simp
qed

text \<open>After \<open>stop\<close> on a fresh Runner the flag is false, and \<open>run\<close> still counts down.\<close>

theorem run_resets_keep_running_witness:
  "\<not> t_keep_running (stop not_a_timer_init)
   \<and> run (countdown :: (64 word, unit) Fn_t) (stop not_a_timer_init) 1
       = Some (Normal, not_a_timer_init, 0, 1)"
proof -
  have r: "run (countdown :: (64 word, unit) Fn_t) (stop not_a_timer_init) 1
       = Some (Normal, not_a_timer_init, 0, 1)"
    by (simp add: run_def janitor_def stop_def not_a_timer_init_def run_loop.simps countdown_def)
  from run_resets_keep_running
    [of "countdown :: (64 word, unit) Fn_t" not_a_timer_init 1 "[]" Normal not_a_timer_init 0 1] r
  show ?thesis by (simp add: stop_def not_a_timer_init_def)
qed

section \<open>At least one invocation\<close>

text \<open>
  C10 as stated fails: a \<open>stop\<close> from another thread between the store of line 49 and
  the first evaluation of the loop condition makes \<open>run\<close> return without a single
  invocation. Here the counter is still 100 when \<open>run\<close> has returned.
\<close>

theorem run_without_invocation_counterexample:
  "rpc (run_exec (countdown :: (64 word, unit) Fn_t) [Step, Stop, Step, Step, Step]
      (run_init not_a_timer_init 100)) = R_done Normal
   \<and> calls (run_exec (countdown :: (64 word, unit) Fn_t) [Step, Stop, Step, Step, Step]
      (run_init not_a_timer_init 100)) = 0
   \<and> env (run_exec (countdown :: (64 word, unit) Fn_t) [Step, Stop, Step, Step, Step]
      (run_init not_a_timer_init 100)) = 100"
  by (simp add: exec_defs)

text \<open>
  C10, amended. Whatever the state of the Runner before the call (also after any number
  of earlier calls of \<open>stop\<close>), a \<open>run\<close> that returns has invoked the step function
  at least once, provided no \<open>stop\<close> lands between the store of line 49 and the first
  evaluation of the loop condition: without interference at all, and under any
  interference before that store and after that first evaluation.
\<close>

theorem run_invokes_at_least_once:
  "(run fn t e = Some (c, t', e', n) \<longrightarrow> 1 \<le> n)
   \<and> (set pre \<subseteq> {Stop}
        \<and> finished (rpc (run_exec fn (pre @ [Step, Step, Step] @ rest) (run_init t e))) \<longrightarrow>
      1 \<le> calls (run_exec fn (pre @ [Step, Step, Step] @ rest) (run_init t e)))"
proof (intro conjI impI)
  assume "run fn t e = Some (c, t', e', n)"
  then show "1 \<le> n" by (rule run_result(1))
next
  let ?s0 = "run_exec fn pre (run_init t e)"
  let ?s3 = "run_exec fn [Step, Step, Step] ?s0"
  assume a: "set pre \<subseteq> {Stop}
    \<and> finished (rpc (run_exec fn (pre @ [Step, Step, Step] @ rest) (run_init t e)))"
  then have "rpc ?s0 = R_keep" using stale_stops [of pre fn "run_init t e"]
    by (simp add: run_init_def)
  from first_three_steps [OF this] have call: "rpc ?s3 = R_call" by simp
  from a have "finished (rpc (run_exec fn rest ?s3))" by (simp add: run_exec_append)
  from in_flight_completes [OF call this]
  show "1 \<le> calls (run_exec fn (pre @ [Step, Step, Step] @ rest) (run_init t e))"
    by (simp add: run_exec_append)
qed

text \<open>
  Two stale calls of \<open>stop\<close>, then \<open>run\<close> with a \<open>stop\<close> during the first
  invocation: that invocation is made, and it is the only one.
\<close>

theorem run_invokes_at_least_once_witness:
  "run (countdown :: (64 word, unit) Fn_t) (stop not_a_timer_init) 2
     = Some (Normal, not_a_timer_init, 0, 2)
   \<and> set [Stop, Stop] \<subseteq> {Stop}
   \<and> finished (rpc (run_exec (countdown :: (64 word, unit) Fn_t)
        ([Stop, Stop] @ [Step, Step, Step] @ [Stop, Step, Step, Step])
        (run_init (stop not_a_timer_init) 2)))
   \<and> calls (run_exec (countdown :: (64 word, unit) Fn_t)
        ([Stop, Stop] @ [Step, Step, Step] @ [Stop, Step, Step, Step])
        (run_init (stop not_a_timer_init) 2)) = 1"
proof -
  let ?sched = "[Stop, Stop] @ [Step, Step, Step] @ [Stop, Step, Step, Step]"
  have r: "run (countdown :: (64 word, unit) Fn_t) (stop not_a_timer_init) 2
       = Some (Normal, not_a_timer_init, 0, 2)"
    by (simp add: run_def janitor_def stop_def not_a_timer_init_def run_loop.simps countdown_def)
  have p: "set [Stop, Stop] \<subseteq> {Stop}" by simp
  have f: "finished (rpc (run_exec (countdown :: (64 word, unit) Fn_t) ?sched
        (run_init (stop not_a_timer_init) 2)))"
    by (simp add: exec_defs)
  have c: "calls (run_exec (countdown :: (64 word, unit) Fn_t) ?sched
        (run_init (stop not_a_timer_init) 2)) \<le> 1"
    by (simp add: exec_defs)
  from run_invokes_at_least_once
    [of "countdown :: (64 word, unit) Fn_t" "stop not_a_timer_init" 2 Normal not_a_timer_init 0 2
        "[Stop, Stop]" "[Stop, Step, Step, Step]"] r p f
  have "1 \<le> calls (run_exec (countdown :: (64 word, unit) Fn_t) ?sched
        (run_init (stop not_a_timer_init) 2))"
    by blast
  with c have "calls (run_exec (countdown :: (64 word, unit) Fn_t) ?sched
        (run_init (stop not_a_timer_init) 2)) = 1"
    by simp
  with r p f show ?thesis by blast
qed

section \<open>\<open>stop\<close>: idempotence and frame\<close>

text \<open>
  C8. \<open>stop\<close> has no failure case; calling it twice is calling it once, as a function
  on the Runner and as a step of any thread at any point of either system. With no loop
  active it changes nothing that can be observed: \<open>is_running\<close> gives the same answer
  and a later \<open>run\<close> behaves the same. However many calls of \<open>stop\<close> a schedule
  contains, the thread in \<open>run\<close> leaves its loop at most once.
\<close>

theorem stop_idempotent:
  "stop (stop t) = stop t
   \<and> is_running (stop t) = is_running t
   \<and> run fn (stop t) e = run fn t e
   \<and> run_event fn Stop (run_event fn Stop s) = run_event fn Stop s
   \<and> sys_step fn Stop_call (sys_step fn Stop_call u) = sys_step fn Stop_call u
   \<and> loop_exits fn sched s \<le> 1"
proof (intro conjI)
  show "stop (stop t) = stop t" by (simp add: stop_def)
  show "is_running (stop t) = is_running t" by (simp add: stop_def is_running_def)
  show "run fn (stop t) e = run fn t e" by (rule run_after_stop)
  show "run_event fn Stop (run_event fn Stop s) = run_event fn Stop s"
    by (simp add: run_event_def stop_def)
  show "sys_step fn Stop_call (sys_step fn Stop_call u) = sys_step fn Stop_call u"
    by (simp add: sys_step_def stop_def)
  show "loop_exits fn sched s \<le> 1" by (rule loop_exits_le_1)
qed

text \<open>Five calls of \<open>stop\<close> around and inside one \<open>run\<close>: the loop is left once.\<close>

theorem stop_idempotent_witness:
  "stop (stop not_a_timer_init) = stop not_a_timer_init
   \<and> \<not> is_running (stop not_a_timer_init)
   \<and> loop_exits (countdown :: (64 word, unit) Fn_t)
        [Stop, Stop, Step, Step, Step, Stop, Stop, Step, Stop, Step]
        (run_init not_a_timer_init 100) = 1"
proof -
  have "loop_exits (countdown :: (64 word, unit) Fn_t)
        [Stop, Stop, Step, Step, Step, Stop, Stop, Step, Stop, Step]
        (run_init not_a_timer_init 100) = 1"
    by (simp add: exec_defs)
  with stop_idempotent [of not_a_timer_init "countdown :: (64 word, unit) Fn_t" 100
      "run_init not_a_timer_init 100" "sys_init 100" "[]"]
  show ?thesis by (simp add: is_running_def not_a_timer_init_def)
qed

text \<open>
  C9. \<open>stop\<close> writes \<open>_keep_running\<close> and nothing else: the future, the condition
  variable, the mutex and \<open>_is_running\<close> are as before, and as a step of the whole
  system it changes the Runner only, and of the Runner that one flag. \<open>is_running\<close> is
  a \<open>const\<close> member that returns the value of \<open>_is_running\<close>: it yields a boolean
  and no new state.
\<close>

theorem stop_changes_only_keep_running:
  "stop t = t\<lparr>t_keep_running := False\<rparr>
   \<and> t_running_fn (stop t) = t_running_fn t
   \<and> t_async_run_started (stop t) = t_async_run_started t
   \<and> t_mutex (stop t) = t_mutex t
   \<and> t_is_running (stop t) = t_is_running t
   \<and> is_running t = t_is_running t
   \<and> is_running (stop t) = is_running t
   \<and> sys_step fn Stop_call s = s\<lparr>timer := timer (sys_step fn Stop_call s)\<rparr>
   \<and> timer (sys_step fn Stop_call s)
       = (timer s)\<lparr>t_keep_running := t_keep_running (timer (sys_step fn Stop_call s))\<rparr>"
  by (simp add: stop_def is_running_def sys_step_def)

section \<open>Liveness reporting\<close>

text \<open>
  C7. \<open>is_running\<close> is false on a freshly constructed Runner. For a \<open>run\<close> called on
  a Runner that is not running, under any interleaving with \<open>stop\<close>, and for the
  detached loop started by \<open>run_async\<close>, under any schedule, the flag is true exactly
  from the store of line 50 up to the janitor's store: false before the loop is entered,
  true while it iterates and during the last evaluation of its condition, false once it
  has been left and the flag has been cleared.
\<close>

theorem is_running_only_during_loop:
  "\<not> is_running not_a_timer_init
   \<and> (\<not> is_running t \<longrightarrow>
        is_running (timer (run_exec fn sched (run_init t e)))
          = in_loop (rpc (run_exec fn sched (run_init t e))))
   \<and> is_running (timer (sys_exec fn asched (sys_init e)))
        = (wpc (sys_exec fn asched (sys_init e)) = W_run
           \<and> in_loop (rpc (sys_exec fn asched (sys_init e))))"
proof (intro conjI impI)
  show "\<not> is_running not_a_timer_init" by (simp add: is_running_def not_a_timer_init_def)
next
  assume "\<not> is_running t"
  then have "t_is_running (timer (run_exec fn sched (run_init t e)))
    = in_loop (rpc (run_exec fn sched (run_init t e)))"
    by (intro liveness_exec) (simp add: run_init_def is_running_def)
  then show "is_running (timer (run_exec fn sched (run_init t e)))
    = in_loop (rpc (run_exec fn sched (run_init t e)))"
    by (simp add: is_running_def)
next
  let ?s = "sys_exec fn asched (sys_init e)"
  have "sys_inv ?s" by (intro sys_inv_exec sys_inv_init)
  then show "is_running (timer ?s) = (wpc ?s = W_run \<and> in_loop (rpc ?s))"
    by (auto simp: sys_inv_def is_running_def)
qed

text \<open>
  A countdown from 2 on a stopped, idle Runner: false before the store of line 50, true
  inside the loop and while the loop has just been left, false after the janitor.
\<close>

theorem is_running_only_during_loop_witness:
  "\<not> is_running (stop not_a_timer_init)
   \<and> \<not> is_running (timer (run_exec (countdown :: (64 word, unit) Fn_t) [Step]
        (run_init (stop not_a_timer_init) 2)))
   \<and> is_running (timer (run_exec (countdown :: (64 word, unit) Fn_t) [Step, Step, Step, Step]
        (run_init (stop not_a_timer_init) 2)))
   \<and> is_running (timer (run_exec (countdown :: (64 word, unit) Fn_t)
        [Step, Step, Step, Step, Step, Step] (run_init (stop not_a_timer_init) 2)))
   \<and> \<not> is_running (timer (run_exec (countdown :: (64 word, unit) Fn_t)
        [Step, Step, Step, Step, Step, Step, Step] (run_init (stop not_a_timer_init) 2)))"
proof -
  have h: "\<not> is_running (stop not_a_timer_init)"
    by (simp add: exec_defs)
  have pcs:
    "rpc (run_exec (countdown :: (64 word, unit) Fn_t) [Step]
        (run_init (stop not_a_timer_init) 2)) = R_is"
    "rpc (run_exec (countdown :: (64 word, unit) Fn_t) [Step, Step, Step, Step]
        (run_init (stop not_a_timer_init) 2)) = R_test"
    "rpc (run_exec (countdown :: (64 word, unit) Fn_t) [Step, Step, Step, Step, Step, Step]
        (run_init (stop not_a_timer_init) 2)) = R_exit Normal"
    "rpc (run_exec (countdown :: (64 word, unit) Fn_t) [Step, Step, Step, Step, Step, Step, Step]
        (run_init (stop not_a_timer_init) 2)) = R_done Normal"
    by (simp_all add: exec_defs)
  from h pcs
    is_running_only_during_loop [of "stop not_a_timer_init" "countdown :: (64 word, unit) Fn_t"
      "[Step]" 2 "[]"]
    is_running_only_during_loop [of "stop not_a_timer_init" "countdown :: (64 word, unit) Fn_t"
      "[Step, Step, Step, Step]" 2 "[]"]
    is_running_only_during_loop [of "stop not_a_timer_init" "countdown :: (64 word, unit) Fn_t"
      "[Step, Step, Step, Step, Step, Step]" 2 "[]"]
    is_running_only_during_loop [of "stop not_a_timer_init" "countdown :: (64 word, unit) Fn_t"
      "[Step, Step, Step, Step, Step, Step, Step]" 2 "[]"]
  show ?thesis by simp
qed

section \<open>The start handshake of \<open>run_async\<close>\<close>

text \<open>
  C1 as stated fails. The worker notifies before it enters \<open>run\<close>, so the caller can
  be back from \<open>run_async\<close> while the worker has not yet executed the stores of
  lines 49 and 50: \<open>is_running()\<close> called at that moment reads false. The schedule is
  the plain one, without a spurious wake-up: the caller locks, starts the task and waits;
  the worker locks, notifies and unlocks; the caller takes the mutex again and returns.
\<close>

theorem run_async_liveness_counterexample:
  "cpc (sys_exec (countdown :: (64 word, unit) Fn_t)
      [Caller_step, Caller_step, Caller_step, Worker_step, Worker_step, Worker_step,
       Caller_step, Caller_step] (sys_init 360000000)) = C_returned
   \<and> \<not> is_running (timer (sys_exec (countdown :: (64 word, unit) Fn_t)
      [Caller_step, Caller_step, Caller_step, Worker_step, Worker_step, Worker_step,
       Caller_step, Caller_step] (sys_init 360000000)))"
  by (simp add: exec_defs)

text \<open>
  The flag can also be false for the opposite reason: a step function that returns false
  at once lets the worker run through the whole loop before the caller gets the mutex
  back, so that the loop is already over when \<open>run_async\<close> returns.
\<close>

lemma run_async_loop_already_over:
  "cpc (sys_exec (\<lambda>e::nat. (Returned False, Suc e))
      [Caller_step, Caller_step, Caller_step, Worker_step, Worker_step, Worker_step,
       Worker_step, Worker_step, Worker_step, Worker_step, Worker_step,
       Caller_step, Caller_step] (sys_init 0)) = C_returned
   \<and> rpc (sys_exec (\<lambda>e::nat. (Returned False, Suc e))
      [Caller_step, Caller_step, Caller_step, Worker_step, Worker_step, Worker_step,
       Worker_step, Worker_step, Worker_step, Worker_step, Worker_step,
       Caller_step, Caller_step] (sys_init 0)) = R_done Normal
   \<and> calls (sys_exec (\<lambda>e::nat. (Returned False, Suc e))
      [Caller_step, Caller_step, Caller_step, Worker_step, Worker_step, Worker_step,
       Worker_step, Worker_step, Worker_step, Worker_step, Worker_step,
       Caller_step, Caller_step] (sys_init 0)) = 1
   \<and> \<not> is_running (timer (sys_exec (\<lambda>e::nat. (Returned False, Suc e))
      [Caller_step, Caller_step, Caller_step, Worker_step, Worker_step, Worker_step,
       Worker_step, Worker_step, Worker_step, Worker_step, Worker_step,
       Caller_step, Caller_step] (sys_init 0)))"
  by (simp add: exec_defs)

text \<open>
  C1, amended. When \<open>run_async\<close> has returned, the background task has been started
  and its future is stored in the Runner, and the caller no longer holds the mutex. If no
  wake-up was spurious, the worker has moreover finished \<open>_notify_async_run_started\<close>
  and stands at or past the entry of \<open>run\<close>. The liveness flag is not part of the
  handshake: it is written by the worker's \<open>run\<close> afterwards.
\<close>

theorem run_async_returns_after_launch:
  assumes "cpc (sys_exec fn sched (sys_init e)) = C_returned"
  shows "t_running_fn (timer (sys_exec fn sched (sys_init e))) = Some Async_task
    \<and> wpc (sys_exec fn sched (sys_init e)) \<noteq> W_unborn
    \<and> t_mutex (timer (sys_exec fn sched (sys_init e))) \<noteq> Some Caller
    \<and> (Spurious_wakeup \<notin> set sched \<longrightarrow> wpc (sys_exec fn sched (sys_init e)) = W_run)"
proof -
  let ?s = "sys_exec fn sched (sys_init e)"
  have inv: "sys_inv ?s" by (intro sys_inv_exec sys_inv_init)
  have launched: "t_running_fn (timer ?s) = Some Async_task \<and> wpc ?s \<noteq> W_unborn
    \<and> t_mutex (timer ?s) \<noteq> Some Caller"
    using inv assms by (auto simp: sys_inv_def engaged_future [symmetric])
  have "wpc ?s = W_run" if "Spurious_wakeup \<notin> set sched"
  proof -
    have "handshake_inv ?s"
      using that by (intro handshake_inv_exec sys_inv_init handshake_inv_init)
    with assms show ?thesis by (simp add: handshake_inv_def)
  qed
  with launched show ?thesis by blast
qed

theorem run_async_returns_after_launch_witness:
  "cpc (sys_exec (countdown :: (64 word, unit) Fn_t)
      [Caller_step, Caller_step, Caller_step, Worker_step, Worker_step, Worker_step,
       Caller_step, Caller_step] (sys_init 360000000)) = C_returned
   \<and> Spurious_wakeup \<notin> set [Caller_step, Caller_step, Caller_step, Worker_step, Worker_step,
       Worker_step, Caller_step, Caller_step]
   \<and> t_running_fn (timer (sys_exec (countdown :: (64 word, unit) Fn_t)
      [Caller_step, Caller_step, Caller_step, Worker_step, Worker_step, Worker_step,
       Caller_step, Caller_step] (sys_init 360000000))) = Some Async_task
   \<and> wpc (sys_exec (countdown :: (64 word, unit) Fn_t)
      [Caller_step, Caller_step, Caller_step, Worker_step, Worker_step, Worker_step,
       Caller_step, Caller_step] (sys_init 360000000)) = W_run"
proof -
  have h: "cpc (sys_exec (countdown :: (64 word, unit) Fn_t)
      [Caller_step, Caller_step, Caller_step, Worker_step, Worker_step, Worker_step,
       Caller_step, Caller_step] (sys_init 360000000)) = C_returned"
    by (simp add: exec_defs)
  show ?thesis
    using h run_async_returns_after_launch [OF h] by simp
qed

section \<open>The destructor drains the detached loop\<close>

text \<open>
  C3. The destructor completes only when the future stored by \<open>run_async\<close> is ready,
  that is when the worker has come to the end of \<open>run\<close>; by then \<open>_is_running\<close> is
  false. While the future is not ready a caller that has entered the destructor does not
  move. If nobody called \<open>stop\<close>, the loop has ended by itself when the destructor
  completes: its last invocation returned false or threw. For the countdown of the tests
  this means the counter is 0.
\<close>

theorem destructor_waits_for_detached_loop:
  "(cpc (sys_exec fn sched (sys_init e)) = C_destroyed \<longrightarrow>
      t_running_fn (timer (sys_exec fn sched (sys_init e))) = Some Async_task
      \<and> future_ready (sys_exec fn sched (sys_init e))
      \<and> \<not> is_running (timer (sys_exec fn sched (sys_init e)))
      \<and> (Stop_call \<notin> set sched \<longrightarrow>
           (\<exists>e0. fn e0 = (Returned False, env (sys_exec fn sched (sys_init e))))
           \<or> (\<exists>e0 x. fn e0 = (Threw x, env (sys_exec fn sched (sys_init e))))))
   \<and> (cpc (sys_exec fn sched (sys_init e)) = C_returned
        \<and> \<not> future_ready (sys_exec fn sched (sys_init e)) \<longrightarrow>
      sys_step fn Caller_step (sys_exec fn sched (sys_init e)) = sys_exec fn sched (sys_init e))
   \<and> (Stop_call \<notin> set csched
        \<and> cpc (sys_exec (countdown :: (64 word, 'x) Fn_t) csched (sys_init count)) = C_destroyed \<longrightarrow>
      env (sys_exec (countdown :: (64 word, 'x) Fn_t) csched (sys_init count)) = 0)"
proof (intro conjI impI)
  let ?s = "sys_exec fn sched (sys_init e)"
  have inv: "sys_inv ?s" by (intro sys_inv_exec sys_inv_init)
  {
    assume d: "cpc ?s = C_destroyed"
    show "t_running_fn (timer ?s) = Some Async_task"
      using inv d by (auto simp: sys_inv_def engaged_future [symmetric])
    show ready: "future_ready ?s" using inv d by (simp add: sys_inv_def)
    show "\<not> is_running (timer ?s)"
      using inv ready by (cases "rpc ?s") (auto simp: sys_inv_def future_ready_def is_running_def)
    assume "Stop_call \<notin> set sched"
    then have "unstopped_inv fn ?s"
      by (intro unstopped_sys_exec) (simp_all add: unstopped_inv_def sys_init_def)
    from finished_natural [OF this] ready
    obtain c where "natural_exit fn c (env ?s)" by (auto simp: future_ready_def)
    then show "(\<exists>e0. fn e0 = (Returned False, env ?s)) \<or> (\<exists>e0 x. fn e0 = (Threw x, env ?s))"
      by (cases c) (auto simp: natural_exit_def)
  }
  {
    assume "cpc ?s = C_returned \<and> \<not> future_ready ?s"
    with inv show "sys_step fn Caller_step ?s = ?s"
      by (auto simp: sys_step_def caller_step_def sys_inv_def split: option.splits)
  }
  let ?c = "sys_exec (countdown :: (64 word, 'x) Fn_t) csched (sys_init count)"
  assume c: "Stop_call \<notin> set csched \<and> cpc ?c = C_destroyed"
  have "sys_inv ?c" by (intro sys_inv_exec sys_inv_init)
  with c have ready: "future_ready ?c" by (simp add: sys_inv_def)
  from c have "unstopped_inv countdown ?c"
    by (intro unstopped_sys_exec) (simp_all add: unstopped_inv_def sys_init_def)
  from finished_natural [OF this] ready
  have "\<exists>c'. natural_exit (countdown :: (64 word, 'x) Fn_t) c' (env ?c)"
    by (auto simp: future_ready_def)
  then show "env ?c = 0" by (auto dest: natural_exit_countdown)
qed

text \<open>
  A countdown from 2. The caller enters the destructor as soon as \<open>run_async\<close> has
  returned and again after the first invocation; both times the future is not ready and
  the caller stays where it is. It gets through once the worker has finished, and the
  counter is 0.
\<close>

theorem destructor_waits_for_detached_loop_witness:
  "cpc (sys_exec (countdown :: (64 word, unit) Fn_t)
      [Caller_step, Caller_step, Caller_step, Worker_step, Worker_step, Worker_step,
       Caller_step, Caller_step, Caller_step, Worker_step, Worker_step, Worker_step,
       Worker_step, Caller_step, Worker_step, Worker_step, Worker_step, Caller_step]
      (sys_init 2)) = C_destroyed
   \<and> Stop_call \<notin> set [Caller_step, Caller_step, Caller_step, Worker_step, Worker_step,
       Worker_step, Caller_step, Caller_step, Caller_step, Worker_step, Worker_step, Worker_step,
       Worker_step, Caller_step, Worker_step, Worker_step, Worker_step, Caller_step]
   \<and> cpc (sys_exec (countdown :: (64 word, unit) Fn_t)
      [Caller_step, Caller_step, Caller_step, Worker_step, Worker_step, Worker_step,
       Caller_step, Caller_step, Caller_step, Worker_step, Worker_step, Worker_step,
       Worker_step, Caller_step] (sys_init 2)) = C_returned
   \<and> \<not> future_ready (sys_exec (countdown :: (64 word, unit) Fn_t)
      [Caller_step, Caller_step, Caller_step, Worker_step, Worker_step, Worker_step,
       Caller_step, Caller_step, Caller_step, Worker_step, Worker_step, Worker_step,
       Worker_step, Caller_step] (sys_init 2))
   \<and> future_ready (sys_exec (countdown :: (64 word, unit) Fn_t)
      [Caller_step, Caller_step, Caller_step, Worker_step, Worker_step, Worker_step,
       Caller_step, Caller_step, Caller_step, Worker_step, Worker_step, Worker_step,
       Worker_step, Caller_step, Worker_step, Worker_step, Worker_step, Caller_step]
      (sys_init 2))
   \<and> env (sys_exec (countdown :: (64 word, unit) Fn_t)
      [Caller_step, Caller_step, Caller_step, Worker_step, Worker_step, Worker_step,
       Caller_step, Caller_step, Caller_step, Worker_step, Worker_step, Worker_step,
       Worker_step, Caller_step, Worker_step, Worker_step, Worker_step, Caller_step]
      (sys_init 2)) = 0"
proof -
  let ?early = "[Caller_step, Caller_step, Caller_step, Worker_step, Worker_step, Worker_step,
       Caller_step, Caller_step, Caller_step, Worker_step, Worker_step, Worker_step,
       Worker_step, Caller_step]"
  let ?full = "?early @ [Worker_step, Worker_step, Worker_step, Caller_step]"
  have d: "cpc (sys_exec (countdown :: (64 word, unit) Fn_t) ?full (sys_init 2)) = C_destroyed"
    by (simp add: exec_defs)
  have r: "cpc (sys_exec (countdown :: (64 word, unit) Fn_t) ?early (sys_init 2)) = C_returned"
    by (simp add: exec_defs)
  have n: "\<not> future_ready (sys_exec (countdown :: (64 word, unit) Fn_t) ?early (sys_init 2))"
    by (simp add: exec_defs)
  have s: "Stop_call \<notin> set ?full" by simp
  have "future_ready (sys_exec (countdown :: (64 word, unit) Fn_t) ?full (sys_init 2))
    \<and> env (sys_exec (countdown :: (64 word, unit) Fn_t) ?full (sys_init 2)) = 0"
    using d s
      destructor_waits_for_detached_loop [of "countdown :: (64 word, unit) Fn_t" ?full 2 ?full 2]
    by blast
  then show ?thesis
    using d r n by simp
qed

end
